theory Spec2Isabelle
  imports Complex_Main "HOL-Library.Multiset"
begin

section \<open>The render thread (class PDFRenderThread)\<close>

subsection \<open>The standard library's bounded queue\<close>

text \<open>
  \<^verbatim>\<open>queue.Queue(maxsize)\<close> keeps its items in a deque (\<^verbatim>\<open>self.queue\<close>) guarded by
  \<^verbatim>\<open>self.mutex\<close>, a plain \<^verbatim>\<open>threading.Lock\<close>. The lock is not reentrant: a thread
  that holds it and asks for it again waits for ever. \<^verbatim>\<open>put\<close> and \<^verbatim>\<open>get\<close> both
  begin by taking the lock (through the conditions \<^verbatim>\<open>not_full\<close> and \<^verbatim>\<open>not_empty\<close>,
  which share it).

  A call that does not come back with a value is a value of type \<open>failure\<close>:
  \<^item> \<open>Deadlock\<close>: the call waits for a lock that is never released;
  \<^item> \<open>Full\<close>: \<^verbatim>\<open>put\<close> waits on \<^verbatim>\<open>not_full\<close> until a consumer takes an item;
  \<^item> \<open>Empty\<close>: \<^verbatim>\<open>get(timeout=...)\<close> raised \<^verbatim>\<open>queue.Empty\<close>;
  \<^item> \<open>TypeError\<close>: subscripting \<^verbatim>\<open>None\<close>.
\<close>

datatype failure = Deadlock | Full | Empty | TypeError

record 'a py_queue =
  items :: "'a list"
  maxsize :: nat
  mutex_held :: bool

definition Queue :: "nat \<Rightarrow> 'a py_queue" where
  "Queue n = \<lparr>items = [], maxsize = n, mutex_held = False\<rparr>"

text \<open>\<^verbatim>\<open>put(item)\<close> with the default \<^verbatim>\<open>block=True, timeout=None\<close>.\<close>

definition put :: "'a py_queue \<Rightarrow> 'a \<Rightarrow> failure + 'a py_queue" where
  "put q x =
     (if mutex_held q then Inl Deadlock
      else if 0 < maxsize q \<and> maxsize q \<le> length (items q) then Inl Full
      else Inr (q\<lparr>items := items q @ [x]\<rparr>))"

text \<open>\<^verbatim>\<open>get(timeout=0.05)\<close>: the timeout bounds the wait for an item, not for the lock.\<close>

definition get :: "'a py_queue \<Rightarrow> failure + ('a \<times> 'a py_queue)" where
  "get q =
     (if mutex_held q then Inl Deadlock
      else case items q of
             [] \<Rightarrow> Inl Empty
           | x # xs \<Rightarrow> Inr (x, q\<lparr>items := xs\<rparr>))"

subsection \<open>Tasks, pages and callbacks\<close>

text \<open>
  A page is an object of the PDF engine: \<^verbatim>\<open>page.rect\<close> gives its width and height
  (\<open>None\<close>: the access raises), and \<open>get_pixmap\<close> stands for the chain
  \<^verbatim>\<open>page.get_pixmap(matrix=Matrix(scale, scale), ...)\<close>, \<^verbatim>\<open>tobytes\<close>,
  \<^verbatim>\<open>QImage.fromData\<close>, \<^verbatim>\<open>QPixmap.fromImage\<close> at a given scale (\<open>None\<close>: one of
  them raises). The bitmap type \<open>'px\<close> is opaque. Python's floats are read as reals.
\<close>

record 'px page =
  rect :: "(real \<times> real) option"
  get_pixmap :: "real \<Rightarrow> 'px option"

text \<open>The arguments of a callback: page number, bitmap or \<^verbatim>\<open>None\<close>, scale, width, height.\<close>

type_synonym 'px cb_args = "int \<times> 'px option \<times> real \<times> real \<times> real"

datatype cb_result = Returns | Raises

type_synonym 'px callback = "'px cb_args \<Rightarrow> cb_result"

text \<open>The tuple \<^verbatim>\<open>(page_num, page, target_size, callback)\<close>; \<open>None\<close> is the sentinel.\<close>

type_synonym 'px task = "int \<times> 'px page \<times> (real \<times> real) \<times> 'px callback"

type_synonym 'px item = "'px task option"

text \<open>What the worker does to the outside, in order.\<close>

datatype 'px event =
    GetPixmap int real
  | Callback "'px callback" "'px cb_args"
  | PrintRenderFailed int
  | PrintThreadError

record 'px thread =
  queue :: "'px item py_queue"
  running :: bool
  calls :: "'px event list"
  finished :: bool

text \<open>
  \<open>queue\<close> and \<open>running\<close> are the object's fields. \<open>calls\<close> logs the worker's
  external calls and \<open>finished\<close> says that \<^verbatim>\<open>run\<close> has returned; the code has
  neither.
\<close>

definition init :: "'px thread" where
  "init = \<lparr>queue = Queue 10, running = True, calls = [], finished = False\<rparr>"

subsection \<open>The worker: \<^verbatim>\<open>run\<close>\<close>

text \<open>
  Lines 35 to 56, the part of the inner \<^verbatim>\<open>try\<close> before the callback: the events it
  causes, and the bitmap with scale and original size, or \<open>None\<close> when it raised.
  A zero width or height raises \<^verbatim>\<open>ZeroDivisionError\<close>.
\<close>

definition render ::
  "int \<Rightarrow> 'px page \<Rightarrow> real \<times> real \<Rightarrow> 'px event list \<times> ('px \<times> real \<times> real \<times> real) option" where
  "render page_num page target_size =
     (case rect page of
        None \<Rightarrow> ([], None)
      | Some (original_width, original_height) \<Rightarrow>
          (case target_size of (target_width, target_height) \<Rightarrow>
             if original_width = 0 \<or> original_height = 0 then ([], None)
             else
               let width_ratio = target_width / original_width;
                   height_ratio = target_height / original_height;
                   scale = min width_ratio height_ratio
               in (case get_pixmap page scale of
                     None \<Rightarrow> ([GetPixmap page_num scale], None)
                   | Some pixmap \<Rightarrow>
                       ([GetPixmap page_num scale],
                        Some (pixmap, scale, original_width, original_height)))))"

text \<open>The handler of the inner \<^verbatim>\<open>try\<close> (lines 61 to 63).\<close>

definition on_failure :: "int \<Rightarrow> 'px callback \<Rightarrow> 'px event list" where
  "on_failure page_num callback =
     [PrintRenderFailed page_num, Callback callback (page_num, None, 0, 0, 0)] @
     (case callback (page_num, None, 0, 0, 0) of
        Returns \<Rightarrow> []
      | Raises \<Rightarrow> [PrintThreadError])"

text \<open>
  Lines 32 to 63 for one task. The callback of line 59 is inside the inner
  \<^verbatim>\<open>try\<close>, so an exception it raises runs the handler as well. What is raised is
  an \<^verbatim>\<open>Exception\<close>, which both handlers catch, and \<^verbatim>\<open>print\<close> is taken to
  succeed.
\<close>

definition process :: "'px task \<Rightarrow> 'px event list" where
  "process task =
     (case task of (page_num, page, target_size, callback) \<Rightarrow>
        (case render page_num page target_size of
           (evs, None) \<Rightarrow> evs @ on_failure page_num callback
         | (evs, Some (pixmap, scale, original_width, original_height)) \<Rightarrow>
             (let args = (page_num, Some pixmap, scale, original_width, original_height)
              in case callback args of
                   Returns \<Rightarrow> evs @ [Callback callback args]
                 | Raises \<Rightarrow> evs @ [Callback callback args] @ on_failure page_num callback)))"

datatype loop_status = Continue | Break | Blocked

text \<open>The body of the \<^verbatim>\<open>while\<close> loop, once.\<close>

definition run_iteration :: "'px thread \<Rightarrow> loop_status \<times> 'px thread" where
  "run_iteration s =
     (case get (queue s) of
        Inl Empty \<Rightarrow> (Continue, s)
      | Inl _ \<Rightarrow> (Blocked, s)
      | Inr (None, q) \<Rightarrow> (Break, s\<lparr>queue := q\<rparr>)
      | Inr (Some task, q) \<Rightarrow> (Continue, s\<lparr>queue := q, calls := calls s @ process task\<rparr>))"

text \<open>
  One step of \<^verbatim>\<open>run\<close>: the test of \<^verbatim>\<open>self.running\<close> and one pass of the body. A
  worker that waits for the lock stays where it is.
\<close>

definition run_step :: "'px thread \<Rightarrow> 'px thread" where
  "run_step s =
     (if finished s then s
      else if \<not> running s then s\<lparr>finished := True\<rparr>
      else case run_iteration s of
             (Continue, s') \<Rightarrow> s'
           | (Break, s') \<Rightarrow> s'\<lparr>finished := True\<rparr>
           | (Blocked, s') \<Rightarrow> s')"


subsection \<open>\<^verbatim>\<open>add_task\<close> and \<^verbatim>\<open>stop\<close>\<close>

text \<open>
  The comprehension \<^verbatim>\<open>[item for item in items if item[0] != page_num]\<close>; on the
  sentinel \<^verbatim>\<open>item[0]\<close> raises \<^verbatim>\<open>TypeError\<close>.
\<close>

fun other_pages :: "int \<Rightarrow> 'px item list \<Rightarrow> 'px item list option" where
  "other_pages page_num [] = Some []"
| "other_pages page_num (None # xs) = None"
| "other_pages page_num (Some t # xs) =
     (case other_pages page_num xs of
        None \<Rightarrow> None
      | Some ys \<Rightarrow> Some (if fst t \<noteq> page_num then Some t # ys else ys))"

text \<open>The loop \<^verbatim>\<open>for item in items: self.queue.put(item)\<close>.\<close>

fun put_all :: "'a py_queue \<Rightarrow> 'a list \<Rightarrow> (failure \<times> 'a py_queue) + 'a py_queue" where
  "put_all q [] = Inr q"
| "put_all q (x # xs) =
     (case put q x of
        Inl e \<Rightarrow> Inl (e, q)
      | Inr q' \<Rightarrow> put_all q' xs)"

text \<open>
  \<^verbatim>\<open>add_task\<close>. The result is the new state, or why the call did not return together
  with the state it left behind. The puts of the loop run inside
  \<^verbatim>\<open>with self.queue.mutex\<close>, the last one after it.
\<close>

definition add_task ::
  "'px thread \<Rightarrow> int \<Rightarrow> 'px page \<Rightarrow> real \<times> real \<Rightarrow> 'px callback \<Rightarrow>
     (failure \<times> 'px thread) + 'px thread" where
  "add_task s page_num page target_size callback =
     (if running s then
        (if mutex_held (queue s) then Inl (Deadlock, s)
         else
           let q1 = (queue s)\<lparr>mutex_held := True\<rparr>
           in case other_pages page_num (items q1) of
                None \<Rightarrow> Inl (TypeError, s)
              | Some kept \<Rightarrow>
                  (case put_all (q1\<lparr>items := []\<rparr>) kept of
                     Inl (e, q2) \<Rightarrow> Inl (e, s\<lparr>queue := q2\<rparr>)
                   | Inr q2 \<Rightarrow>
                       (let q3 = q2\<lparr>mutex_held := False\<rparr>
                        in case put q3 (Some (page_num, page, target_size, callback)) of
                             Inl e \<Rightarrow> Inl (e, s\<lparr>queue := q3\<rparr>)
                           | Inr q4 \<Rightarrow> Inr (s\<lparr>queue := q4\<rparr>))))
      else Inr s)"

definition stop :: "'px thread \<Rightarrow> (failure \<times> 'px thread) + 'px thread" where
  "stop s =
     (let s1 = s\<lparr>running := False\<rparr>
      in case put (queue s1) None of
           Inl e \<Rightarrow> Inl (e, s1)
         | Inr q \<Rightarrow> Inr (s1\<lparr>queue := q\<rparr>))"

text \<open>
  The calls made on one thread object, in the order they take effect. \<^verbatim>\<open>add_task\<close>
  and \<^verbatim>\<open>stop\<close> come from the user interface thread, \<open>Worker\<close> is one step of
  \<^verbatim>\<open>run\<close>. A call that does not return ends the history.
\<close>

datatype 'px op = AddTask int "'px page" "real \<times> real" "'px callback" | Stop | Worker

fun apply_op :: "'px op \<Rightarrow> 'px thread \<Rightarrow> (failure \<times> 'px thread) + 'px thread" where
  "apply_op (AddTask page_num page target_size callback) s =
     add_task s page_num page target_size callback"
| "apply_op Stop s = stop s"
| "apply_op Worker s = Inr (run_step s)"

fun exec :: "'px op list \<Rightarrow> 'px thread \<Rightarrow> (failure \<times> 'px thread) + 'px thread" where
  "exec [] s = Inr s"
| "exec (x # xs) s = (case apply_op x s of Inl e \<Rightarrow> Inl e | Inr s' \<Rightarrow> exec xs s')"


text \<open>The queued tasks for one page, oldest first.\<close>

definition queued_for :: "int \<Rightarrow> 'px thread \<Rightarrow> 'px task list" where
  "queued_for page_num s = [t. Some t \<leftarrow> items (queue s), fst t = page_num]"

text \<open>How often a callback was invoked.\<close>

fun is_callback :: "'px event \<Rightarrow> bool" where
  "is_callback (Callback callback args) = True"
| "is_callback (GetPixmap page_num scale) = False"
| "is_callback (PrintRenderFailed page_num) = False"
| "is_callback PrintThreadError = False"

section \<open>The file dialog (class FileListDialog)\<close>

text \<open>
  The functions of \<^verbatim>\<open>os\<close> and \<^verbatim>\<open>os.path\<close> whose details depend on the platform
  are parameters. \<open>save_raises\<close> stands for the host window's
  \<^verbatim>\<open>save_reading_positions\<close>, whose body is not part of the source file: it says for
  which mapping the call raises.
\<close>

record os_env =
  abspath :: "string \<Rightarrow> string"
  normcase :: "string \<Rightarrow> string"
  join_path :: "string \<Rightarrow> string \<Rightarrow> string"
  save_raises :: "(string \<rightharpoonup> int) \<Rightarrow> bool"

text \<open>
  The files the dialog can delete: \<open>Some True\<close> is a file that \<^verbatim>\<open>os.remove\<close> removes,
  \<open>Some False\<close> one it refuses to remove, \<open>None\<close> no file.
\<close>

type_synonym filesystem = "string \<rightharpoonup> bool"

datatype os_error = FileNotFoundError | PermissionError | SaveError

definition os_remove :: "filesystem \<Rightarrow> string \<Rightarrow> os_error + filesystem" where
  "os_remove files path =
     (case files path of
        None \<Rightarrow> Inl FileNotFoundError
      | Some False \<Rightarrow> Inl PermissionError
      | Some True \<Rightarrow> Inr (files(path := None)))"

text \<open>A list item carries the data of roles \<^verbatim>\<open>Qt.UserRole\<close> and \<^verbatim>\<open>Qt.UserRole + 1\<close>.\<close>

record list_item =
  file_path :: string
  file_name :: string

datatype reply = Yes | No

text \<open>The message boxes, by what they say.\<close>

datatype dialog =
    WarnSelectToOpen
  | WarnSelectToDelete
  | ConfirmDelete nat
  | DeleteResult nat "(string \<times> os_error) list"
  | DeleteSuccess nat

text \<open>
  The host window's \<open>reading_positions\<close> and the files; \<open>shown\<close>, \<open>opened\<close>,
  \<open>removals\<close> and \<open>accepted\<close> log the message boxes, the calls of the host's
  \<^verbatim>\<open>load_pdf_file\<close>, the calls of \<^verbatim>\<open>os.remove\<close> and the call of \<^verbatim>\<open>accept\<close>.
\<close>

record host =
  files :: filesystem
  reading_positions :: "string \<rightharpoonup> int"
  shown :: "dialog list"
  opened :: "string list"
  removals :: "string list"
  accepted :: bool

definition open_selected_file :: "host \<Rightarrow> list_item list \<Rightarrow> host" where
  "open_selected_file h selected_items =
     (case selected_items of
        [] \<Rightarrow> h\<lparr>shown := shown h @ [WarnSelectToOpen]\<rparr>
      | item # others \<Rightarrow> h\<lparr>opened := opened h @ [file_path item], accepted := True\<rparr>)"

text \<open>
  The body of the loop of \<^verbatim>\<open>delete_selected_files\<close> (lines 250 to 265), on the host
  and the locals \<open>deleted_count\<close> and \<open>failed_files\<close>.
\<close>

definition delete_item ::
  "os_env \<Rightarrow> list_item \<Rightarrow> host \<times> nat \<times> (string \<times> os_error) list \<Rightarrow>
     host \<times> nat \<times> (string \<times> os_error) list" where
  "delete_item env item st =
     (case st of (h, deleted_count, failed_files) \<Rightarrow>
        let h0 = h\<lparr>removals := removals h @ [file_path item]\<rparr>
        in (case os_remove (files h0) (file_path item) of
              Inl e \<Rightarrow> (h0, deleted_count, failed_files @ [(file_name item, e)])
            | Inr files' \<Rightarrow>
                (let h1 = h0\<lparr>files := files'\<rparr>;
                     file_key = abspath env (file_path item)
                 in if reading_positions h1 file_key \<noteq> None then
                      (let h2 = h1\<lparr>reading_positions := (reading_positions h1)(file_key := None)\<rparr>
                       in if save_raises env (reading_positions h2)
                          then (h2, deleted_count, failed_files @ [(file_name item, SaveError)])
                          else (h2, deleted_count + 1, failed_files))
                    else (h1, deleted_count + 1, failed_files))))"

fun delete_loop ::
  "os_env \<Rightarrow> list_item list \<Rightarrow> host \<times> nat \<times> (string \<times> os_error) list \<Rightarrow>
     host \<times> nat \<times> (string \<times> os_error) list" where
  "delete_loop env [] st = st"
| "delete_loop env (item # selected_items) st =
     delete_loop env selected_items (delete_item env item st)"

text \<open>
  \<^verbatim>\<open>delete_selected_files\<close>, with the user's answer to the confirmation. The closing
  \<^verbatim>\<open>self.load_file_list()\<close> rebuilds the list widget and is left out.
\<close>

definition delete_selected_files :: "os_env \<Rightarrow> host \<Rightarrow> list_item list \<Rightarrow> reply \<Rightarrow> host" where
  "delete_selected_files env h selected_items answer =
     (if selected_items = [] then h\<lparr>shown := shown h @ [WarnSelectToDelete]\<rparr>
      else
        let h1 = h\<lparr>shown := shown h @ [ConfirmDelete (length selected_items)]\<rparr>
        in if answer = Yes then
             (case delete_loop env selected_items (h1, 0, []) of
                (h2, deleted_count, failed_files) \<Rightarrow>
                  if failed_files \<noteq> []
                  then h2\<lparr>shown := shown h2 @ [DeleteResult deleted_count failed_files]\<rparr>
                  else h2\<lparr>shown := shown h2 @ [DeleteSuccess deleted_count]\<rparr>)
           else h1)"

subsection \<open>\<^verbatim>\<open>scan_pdf_files\<close>\<close>

text \<open>
  The disk as the scan sees it: the directory of the program file
  (\<^verbatim>\<open>os.path.dirname(os.path.abspath(__file__))\<close>); for a directory, the names in it in
  the order \<^verbatim>\<open>os.scandir\<close> lists them (none when it cannot be listed); for a
  directory pattern, the directories that \<^verbatim>\<open>glob\<close> expands it to; and
  \<^verbatim>\<open>os.path.getmtime\<close> on a path (\<open>None\<close>: it raises \<^verbatim>\<open>OSError\<close>, as for a dangling
  link or a file removed in between).
\<close>

record disk =
  current_dir :: string
  listdir :: "string \<Rightarrow> string list"
  glob_dirs :: "string \<Rightarrow> string list"
  getmtime :: "string \<Rightarrow> real option"

definition ends_with :: "string \<Rightarrow> string \<Rightarrow> bool" where
  "ends_with suffix name \<longleftrightarrow>
     length suffix \<le> length name \<and> drop (length name - length suffix) name = suffix"

definition is_hidden :: "string \<Rightarrow> bool" where
  "is_hidden name = (case name of [] \<Rightarrow> False | c # cs \<Rightarrow> c = CHR ''.'')"

text \<open>\<^verbatim>\<open>glob.has_magic\<close>: the path holds one of the characters \<^verbatim>\<open>*\<close>, \<^verbatim>\<open>?\<close>, \<^verbatim>\<open>[\<close>.\<close>

definition has_magic :: "string \<Rightarrow> bool" where
  "has_magic path \<longleftrightarrow> (\<exists>c \<in> set path. c = CHR ''*'' \<or> c = CHR ''?'' \<or> c = CHR ''['')"

text \<open>
  \<^verbatim>\<open>glob.glob(os.path.join(current_dir, "*.pdf"))\<close>. The path is split into the
  directory and \<^verbatim>\<open>*.pdf\<close>. The code does not escape the directory, so when it holds
  a pattern character \<^verbatim>\<open>glob\<close> expands it as a pattern and looks into every
  directory that matches; otherwise it looks into the directory itself. In each
  directory the pattern \<^verbatim>\<open>*.pdf\<close> does not start with a dot, so the names that do are
  skipped, and \<^verbatim>\<open>fnmatch\<close> compares after \<^verbatim>\<open>normcase\<close>. Every match is joined to
  the directory it was found in.
\<close>

definition glob_pdf :: "os_env \<Rightarrow> disk \<Rightarrow> string list" where
  "glob_pdf env d =
     (let dirs = (if has_magic (current_dir d) then glob_dirs d (current_dir d)
                  else [current_dir d])
      in concat
           (map (\<lambda>dirname.
                   map (join_path env dirname)
                     (filter (\<lambda>name. \<not> is_hidden name \<and> ends_with ''.pdf'' (normcase env name))
                        (listdir d dirname)))
              dirs))"

text \<open>
  \<^verbatim>\<open>pdf_files.sort(key=os.path.getmtime, reverse=True)\<close>: the keys are computed first
  (\<open>None\<close> when one of them raises, and the list stays as it was); the sort is stable,
  and a reversed sort is the sort of the reversed list, reversed.
\<close>

definition sort_by_mtime_reverse :: "(string \<Rightarrow> real option) \<Rightarrow> string list \<Rightarrow> string list option" where
  "sort_by_mtime_reverse mtime paths =
     (case those (map (\<lambda>p. map_option (\<lambda>t. (t, p)) (mtime p)) paths) of
        None \<Rightarrow> None
      | Some keyed \<Rightarrow> Some (map snd (rev (sort_key fst (rev keyed)))))"

definition scan_pdf_files :: "os_env \<Rightarrow> disk \<Rightarrow> string list" where
  "scan_pdf_files env d =
     (let pdf_files = glob_pdf env d
      in case sort_by_mtime_reverse (getmtime d) pdf_files of
           None \<Rightarrow> pdf_files
         | Some sorted_files \<Rightarrow> sorted_files)"

section \<open>Concrete inputs\<close>

definition page_a :: "string page" where
  "page_a = \<lparr>rect = Some (400, 300), get_pixmap = (\<lambda>scale. Some ''bitmap'')\<rparr>"


definition quiet_callback :: "string callback" where
  "quiet_callback args = Returns"

text \<open>A callback that raises when it is handed a bitmap.\<close>

definition strict_callback :: "string callback" where
  "strict_callback args =
     (case args of (page_num, pixmap, scale, width, height) \<Rightarrow>
        (case pixmap of None \<Rightarrow> Returns | Some bitmap \<Rightarrow> Raises))"

text \<open>A started thread with one task for page 1 waiting, and the same after \<^verbatim>\<open>stop()\<close>.\<close>

definition page_1_queued :: "string thread" where
  "page_1_queued =
     \<lparr>queue = \<lparr>items = [Some (1, page_a, (800, 600), quiet_callback)],
               maxsize = 10, mutex_held = False\<rparr>,
      running = True, calls = [], finished = False\<rparr>"

definition stopped_with_page_1 :: "string thread" where
  "stopped_with_page_1 =
     \<lparr>queue = \<lparr>items = [Some (1, page_a, (800, 600), quiet_callback), None],
               maxsize = 10, mutex_held = False\<rparr>,
      running = False, calls = [], finished = False\<rparr>"

definition posix :: os_env where
  "posix = \<lparr>abspath = (\<lambda>p. p), normcase = (\<lambda>p. p),
             join_path = (\<lambda>d n. d @ ''/'' @ n), save_raises = (\<lambda>m. False)\<rparr>"

definition shelf :: host where
  "shelf =
     \<lparr>files = [''/app/a.pdf'' \<mapsto> False, ''/app/b.pdf'' \<mapsto> True, ''/app/c.pdf'' \<mapsto> True],
      reading_positions = [''/app/b.pdf'' \<mapsto> 4, ''/app/c.pdf'' \<mapsto> 7],
      shown = [], opened = [], removals = [], accepted = False\<rparr>"

definition item_a :: list_item where
  "item_a = \<lparr>file_path = ''/app/a.pdf'', file_name = ''a.pdf''\<rparr>"

definition item_b :: list_item where
  "item_b = \<lparr>file_path = ''/app/b.pdf'', file_name = ''b.pdf''\<rparr>"

text \<open>
  A program directory with a hidden PDF and with \<^verbatim>\<open>c.pdf\<close> a dangling link, one
  without either, and one whose name holds a bracket, next to a directory that the
  name matches as a pattern.
\<close>

definition app_dir :: disk where
  "app_dir =
     \<lparr>current_dir = ''/app'',
      listdir = (\<lambda>p. if p = ''/app''
                     then [''.cover.pdf'', ''a.pdf'', ''b.pdf'', ''c.pdf'', ''notes.txt'']
                     else []),
      glob_dirs = (\<lambda>p. []),
      getmtime = [''/app/.cover.pdf'' \<mapsto> 9, ''/app/a.pdf'' \<mapsto> 1, ''/app/b.pdf'' \<mapsto> 5,
                  ''/app/notes.txt'' \<mapsto> 3]\<rparr>"

definition tidy_dir :: disk where
  "tidy_dir =
     \<lparr>current_dir = ''/app'',
      listdir = (\<lambda>p. if p = ''/app'' then [''a.pdf'', ''b.pdf'', ''notes.txt''] else []),
      glob_dirs = (\<lambda>p. []),
      getmtime = [''/app/a.pdf'' \<mapsto> 1, ''/app/b.pdf'' \<mapsto> 5, ''/app/notes.txt'' \<mapsto> 3]\<rparr>"

definition bracket_dir :: disk where
  "bracket_dir =
     \<lparr>current_dir = ''/app/s[1]'',
      listdir = (\<lambda>p. if p = ''/app/s[1]'' then [''x.pdf'']
                     else if p = ''/app/s1'' then [''other.pdf'']
                     else []),
      glob_dirs = (\<lambda>p. if p = ''/app/s[1]'' then [''/app/s1''] else []),
      getmtime = [''/app/s[1]/x.pdf'' \<mapsto> 2, ''/app/s1/other.pdf'' \<mapsto> 4]\<rparr>"

section \<open>The queue between calls\<close>

text \<open>
  Between two calls the lock is free, and while the thread runs at most one task waits:
  \<^verbatim>\<open>add_task\<close> returns only when its loop of puts had nothing to put.
\<close>

definition quiet :: "'px thread \<Rightarrow> bool" where
  "quiet s \<longleftrightarrow>
     \<not> mutex_held (queue s) \<and>
     (running s \<longrightarrow> length (items (queue s)) \<le> 1 \<and> None \<notin> set (items (queue s)))"

lemma other_pages_filter:
  "None \<notin> set xs \<Longrightarrow>
     other_pages n xs = Some (filter (\<lambda>i. case i of None \<Rightarrow> True | Some t \<Rightarrow> fst t \<noteq> n) xs)"
  by (induction n xs rule: other_pages.induct) auto

lemma put_all_held:
  "mutex_held q \<Longrightarrow> put_all q xs = (if xs = [] then Inr q else Inl (Deadlock, q))"
  by (cases xs) (auto simp: put_def)

lemma quiet_init: "quiet init"
  by (simp add: quiet_def init_def Queue_def)

lemma quiet_add_task: "quiet s \<Longrightarrow> add_task s n p t c = Inr s' \<Longrightarrow> quiet s'"
  by (auto simp: quiet_def add_task_def Let_def put_all_held put_def
      split: if_splits option.splits sum.splits prod.splits)

lemma quiet_stop: "quiet s \<Longrightarrow> stop s = Inr s' \<Longrightarrow> quiet s'"
  by (auto simp: quiet_def stop_def Let_def put_def split: if_splits sum.splits)

lemma quiet_run_step: "quiet s \<Longrightarrow> quiet (run_step s)"
  by (auto simp: quiet_def run_step_def run_iteration_def get_def
      split: if_splits sum.splits list.splits option.splits failure.splits)

lemma quiet_exec: "quiet s \<Longrightarrow> exec ops s = Inr s' \<Longrightarrow> quiet s'"
proof (induction ops arbitrary: s)
  case Nil
  then show ?case by simp
next
  case (Cons x xs)
  then show ?case
    by (cases x) (auto split: sum.splits dest: quiet_add_task quiet_stop quiet_run_step)
qed

text \<open>
  With a task for another page waiting, \<^verbatim>\<open>add_task\<close> empties the deque and then
  waits for the lock it holds.
\<close>

lemma add_task_deadlocks:
  assumes "running s" and "\<not> mutex_held (queue s)" and "None \<notin> set (items (queue s))"
    and "Some t \<in> set (items (queue s))" and "fst t \<noteq> page_num"
  shows "add_task s page_num page target_size callback =
           Inl (Deadlock, s\<lparr>queue := (queue s)\<lparr>items := [], mutex_held := True\<rparr>\<rparr>)"
proof -
  let ?kept = "filter (\<lambda>i. case i of None \<Rightarrow> True | Some t \<Rightarrow> fst t \<noteq> page_num) (items (queue s))"
  have "?kept \<noteq> []"
    using assms(4,5) by (auto simp: filter_empty_conv intro!: bexI [of _ "Some t"])
  then show ?thesis
    using assms(1-3) by (simp add: add_task_def Let_def other_pages_filter put_all_held)
qed




section \<open>The worker, step by step\<close>

lemma run_step_task:
  assumes "\<not> finished s" and "running s" and "get (queue s) = Inr (Some task, q)"
  shows "run_step s = s\<lparr>queue := q, calls := calls s @ process task\<rparr>"
  using assms by (simp add: run_step_def run_iteration_def)


text \<open>
  A task's callback is invoked once, except that a callback raising on the bitmap is
  invoked a second time by the handler.
\<close>

lemma callbacks_per_task:
  "length (filter is_callback (process (page_num, page, target_size, callback))) =
     (case render page_num page target_size of
        (evs, None) \<Rightarrow> 1
      | (evs, Some (pixmap, scale, w, h)) \<Rightarrow>
          (case callback (page_num, Some pixmap, scale, w, h) of Returns \<Rightarrow> 1 | Raises \<Rightarrow> 2))"
  by (auto simp: process_def render_def on_failure_def Let_def
      split: option.splits prod.splits cb_result.splits if_splits)

section \<open>Properties of the render thread\<close>

text \<open>
  Claim C1, as the code has it. On a thread that is still running (\<^verbatim>\<open>stop()\<close> has not
  been called), in any state that calls of \<^verbatim>\<open>add_task\<close>, \<^verbatim>\<open>stop\<close> and steps of the
  worker produce from a fresh thread: when a task for page \<open>N\<close> is submitted while an
  older task for page \<open>N\<close> is still queued, \<^verbatim>\<open>add_task\<close> returns, and afterwards
  exactly one task for page \<open>N\<close> is queued, the new one.
\<close>

theorem add_task_supersedes_queued_task:
  assumes "exec ops init = Inr s" and "running s"
    and "Some old \<in> set (items (queue s))" and "fst old = page_num"
  shows "\<exists>s'. add_task s page_num page target_size callback = Inr s' \<and>
           queued_for page_num s' = [(page_num, page, target_size, callback)]"
proof -
  have q: "quiet s"
    using quiet_exec [OF quiet_init assms(1)] .
  with assms(2,3) have its: "items (queue s) = [Some old]"
    by (cases "items (queue s)") (auto simp: quiet_def)
  show ?thesis
    using q assms(2,4) its
    by (auto simp: add_task_def quiet_def Let_def put_def queued_for_def)
qed

text \<open>
  Claim C1 at a concrete input: a task for page 1 at 800 by 600 is queued, and a task
  for page 1 at 1024 by 768 replaces it.
\<close>

theorem add_task_supersedes_queued_task_witness:
  "\<exists>s'. add_task page_1_queued 1 page_a (1024, 768) quiet_callback = Inr s' \<and>
        queued_for 1 s' = [(1, page_a, (1024, 768), quiet_callback)]"
proof -
  have r: "exec [AddTask 1 page_a (800, 600) quiet_callback] init = Inr page_1_queued"
    by (simp add: add_task_def init_def Queue_def put_def page_1_queued_def)
  have a: "running page_1_queued"
    and b: "Some (1, page_a, (800, 600), quiet_callback) \<in> set (items (queue page_1_queued))"
    by (simp_all add: page_1_queued_def)
  show ?thesis
    using add_task_supersedes_queued_task [OF r a b] by simp
qed

text \<open>
  Claim C1 as stated fails once \<^verbatim>\<open>stop()\<close> has been called: the guard
  \<^verbatim>\<open>if self.running\<close> makes \<^verbatim>\<open>add_task\<close> do nothing, so the older task for page 1
  stays queued and the new one is not.
\<close>

theorem add_task_after_stop_keeps_old_task:
  "exec [AddTask 1 page_a (800, 600) quiet_callback, Stop] init = Inr stopped_with_page_1 \<and>
   add_task stopped_with_page_1 1 page_a (1024, 768) quiet_callback = Inr stopped_with_page_1 \<and>
   queued_for 1 stopped_with_page_1 = [(1, page_a, (800, 600), quiet_callback)] \<and>
   queued_for 1 stopped_with_page_1 \<noteq> [(1, page_a, (1024, 768), quiet_callback)]"
  by (simp add: stopped_with_page_1_def add_task_def stop_def init_def Queue_def put_def
      queued_for_def)

text \<open>
  Claim C2. For a task with target size \<open>(W, H)\<close> on a page of size \<open>(w, h)\<close>,
  \<open>w > 0\<close> and \<open>h > 0\<close>, the worker calls the rasterizer with the scale
  \<open>min (W / w) (H / h)\<close>, and when that yields a bitmap it calls the callback with the
  bitmap, the same scale and \<open>w\<close> and \<open>h\<close>.
\<close>

theorem scale_is_min_ratio:
  assumes "rect page = Some (w, h)" and "0 < w" and "0 < h"
    and "\<not> finished s" and "running s"
    and "get (queue s) = Inr (Some (page_num, page, (W, H), callback), q)"
  shows "calls (run_step s) =
           calls s @ GetPixmap page_num (min (W / w) (H / h)) #
             (case get_pixmap page (min (W / w) (H / h)) of
                None \<Rightarrow> on_failure page_num callback
              | Some pixmap \<Rightarrow>
                  Callback callback (page_num, Some pixmap, min (W / w) (H / h), w, h) #
                    (case callback (page_num, Some pixmap, min (W / w) (H / h), w, h) of
                       Returns \<Rightarrow> []
                     | Raises \<Rightarrow> on_failure page_num callback))"
  using assms(1-3)
  by (simp add: run_step_task [OF assms(4-6)] process_def render_def Let_def
      split: option.splits cb_result.splits)

text \<open>
  Claim C2 at a concrete input: a page of 400 by 300 shown in 800 by 450 is scaled by
  \<open>min (800 / 400) (450 / 300) = 3 / 2\<close>.
\<close>

theorem scale_is_min_ratio_witness:
  "calls (run_step \<lparr>queue = \<lparr>items = [Some (1, page_a, (800, 450), quiet_callback)],
                              maxsize = 10, mutex_held = False\<rparr>,
                     running = True, calls = [], finished = False\<rparr>) =
     [GetPixmap 1 (3 / 2), Callback quiet_callback (1, Some ''bitmap'', 3 / 2, 400, 300)]"
proof -
  have r: "rect page_a = Some (400, 300)"
    by (simp add: page_a_def)
  show ?thesis
    using scale_is_min_ratio [OF r, of
        "\<lparr>queue = \<lparr>items = [Some (1, page_a, (800, 450), quiet_callback)],
                    maxsize = 10, mutex_held = False\<rparr>,
           running = True, calls = [], finished = False\<rparr>"
        1 800 450 quiet_callback "\<lparr>items = [], maxsize = 10, mutex_held = False\<rparr>"]
    by (simp add: get_def page_a_def quiet_callback_def)
qed





text \<open>
  Claim C5 fails on the code. A task for page 1 is queued and a task for page 2 is
  submitted: \<^verbatim>\<open>add_task\<close> takes \<^verbatim>\<open>self.queue.mutex\<close>, clears the deque and calls
  \<^verbatim>\<open>self.queue.put\<close> for the task of page 1, which waits for the same lock. The call
  never returns; the deque is left empty and the lock held.
\<close>

theorem add_task_other_page_deadlock:
  "exec [AddTask 1 page_a (800, 600) quiet_callback] init = Inr page_1_queued \<and>
   add_task page_1_queued 2 page_a (800, 600) quiet_callback =
     Inl (Deadlock, \<lparr>queue = \<lparr>items = [], maxsize = 10, mutex_held = True\<rparr>,
                     running = True, calls = [], finished = False\<rparr>)"
  by (simp add: add_task_def init_def Queue_def put_def page_1_queued_def)

text \<open>
  Claim C6 fails on the code. The page renders, the callback raises when it is called
  with the bitmap, and the handler of the inner \<^verbatim>\<open>try\<close> calls it again with
  \<^verbatim>\<open>None\<close>: two invocations for one dequeued task.
\<close>

theorem callback_invoked_twice:
  "calls (run_step \<lparr>queue = \<lparr>items = [Some (1, page_a, (800, 600), strict_callback)],
                              maxsize = 10, mutex_held = False\<rparr>,
                     running = True, calls = [], finished = False\<rparr>) =
     [GetPixmap 1 2,
      Callback strict_callback (1, Some ''bitmap'', 2, 400, 300),
      PrintRenderFailed 1,
      Callback strict_callback (1, None, 0, 0, 0)] \<and>
   length (filter is_callback
     (calls (run_step \<lparr>queue = \<lparr>items = [Some (1, page_a, (800, 600), strict_callback)],
                                maxsize = 10, mutex_held = False\<rparr>,
                       running = True, calls = [], finished = False\<rparr>))) = 2"
  by (simp add: run_step_def run_iteration_def get_def process_def render_def page_a_def
      on_failure_def strict_callback_def)

section \<open>Properties of the file dialog\<close>

subsection \<open>Deleting files\<close>

lemma delete_item_effect:
  assumes "delete_item env item (h, n, f) = (h', n', f')"
  shows "reading_positions h' =
           (\<lambda>k. if files h (file_path item) = Some True \<and> abspath env (file_path item) = k
                then None else reading_positions h k)"
    and "files h' = (\<lambda>p. if p = file_path item \<and> files h p = Some True then None else files h p)"
    and "removals h' = removals h @ [file_path item]"
    and "shown h' = shown h"
    and "n' + length f' = Suc (n + length f)"
    and "\<exists>g. f' = f @ g"
    and "files h (file_path item) \<noteq> Some True \<Longrightarrow> \<exists>e. (file_name item, e) \<in> set f'"
  using assms
  by (auto simp: delete_item_def os_remove_def Let_def fun_eq_iff
      split: option.splits bool.splits if_splits)

lemma delete_loop_effect:
  assumes "delete_loop env sel (h, n, f) = (h', n', f')"
  shows "reading_positions h' key =
           (if \<exists>item \<in> set sel.
                 files h (file_path item) = Some True \<and> abspath env (file_path item) = key
            then None else reading_positions h key)"
    and "files h' p =
           (if (\<exists>item \<in> set sel. file_path item = p) \<and> files h p = Some True
            then None else files h p)"
    and "removals h' = removals h @ map file_path sel"
    and "shown h' = shown h"
    and "n' + length f' = n + length f + length sel"
    and "\<exists>g. f' = f @ g"
    and "\<forall>item \<in> set sel.
           files h (file_path item) \<noteq> Some True \<longrightarrow> (\<exists>e. (file_name item, e) \<in> set f')"
  using assms
proof (induction sel arbitrary: h n f)
  case Nil
  {
    case 1 then show ?case by simp
  next
    case 2 then show ?case by simp
  next
    case 3 then show ?case by simp
  next
    case 4 then show ?case by simp
  next
    case 5 then show ?case by simp
  next
    case 6 then show ?case by simp
  next
    case 7 then show ?case by simp
  }
next
  case (Cons item sel)
  {
    case 1
    obtain h1 n1 f1 where st: "delete_item env item (h, n, f) = (h1, n1, f1)"
      by (metis prod_cases3)
    note eff = delete_item_effect [OF st]
    from 1 st have "delete_loop env sel (h1, n1, f1) = (h', n', f')" by simp
    from Cons.IH(1) [OF this] show ?case
      by (auto simp: eff(1,2))
  next
    case 2
    obtain h1 n1 f1 where st: "delete_item env item (h, n, f) = (h1, n1, f1)"
      by (metis prod_cases3)
    note eff = delete_item_effect [OF st]
    from 2 st have "delete_loop env sel (h1, n1, f1) = (h', n', f')" by simp
    from Cons.IH(2) [OF this] show ?case
      by (auto simp: eff(2))
  next
    case 3
    obtain h1 n1 f1 where st: "delete_item env item (h, n, f) = (h1, n1, f1)"
      by (metis prod_cases3)
    note eff = delete_item_effect [OF st]
    from 3 st have "delete_loop env sel (h1, n1, f1) = (h', n', f')" by simp
    from Cons.IH(3) [OF this] show ?case
      by (simp add: eff(3))
  next
    case 4
    obtain h1 n1 f1 where st: "delete_item env item (h, n, f) = (h1, n1, f1)"
      by (metis prod_cases3)
    note eff = delete_item_effect [OF st]
    from 4 st have "delete_loop env sel (h1, n1, f1) = (h', n', f')" by simp
    from Cons.IH(4) [OF this] show ?case
      by (simp add: eff(4))
  next
    case 5
    obtain h1 n1 f1 where st: "delete_item env item (h, n, f) = (h1, n1, f1)"
      by (metis prod_cases3)
    note eff = delete_item_effect [OF st]
    from 5 st have "delete_loop env sel (h1, n1, f1) = (h', n', f')" by simp
    from Cons.IH(5) [OF this] show ?case
      using eff(5) by simp
  next
    case 6
    obtain h1 n1 f1 where st: "delete_item env item (h, n, f) = (h1, n1, f1)"
      by (metis prod_cases3)
    note eff = delete_item_effect [OF st]
    from 6 st have "delete_loop env sel (h1, n1, f1) = (h', n', f')" by simp
    from Cons.IH(6) [OF this] eff(6) show ?case
      by auto
  next
    case 7
    obtain h1 n1 f1 where st: "delete_item env item (h, n, f) = (h1, n1, f1)"
      by (metis prod_cases3)
    note eff = delete_item_effect [OF st]
    from 7 st have loop: "delete_loop env sel (h1, n1, f1) = (h', n', f')" by simp
    from Cons.IH(6) [OF loop] obtain g where g: "f' = f1 @ g" by blast
    from Cons.IH(7) [OF loop] eff(7) g show ?case
      by (auto simp: eff(2) split: if_splits)
  }
qed

text \<open>
  Claim C7. After a confirmed deletion the reading position of a path is gone exactly
  when the path is the absolute path of a selected file that \<^verbatim>\<open>os.remove\<close> removed
  (a file it could remove, which is then no longer there); every other entry is as
  before. When the user answers no, nothing changes.
\<close>

theorem deletion_forgets_only_deleted_files:
  "reading_positions (delete_selected_files env h selected_items Yes) key =
     (if \<exists>item \<in> set selected_items.
           files h (file_path item) = Some True \<and> abspath env (file_path item) = key
      then None else reading_positions h key) \<and>
   files (delete_selected_files env h selected_items Yes) path =
     (if (\<exists>item \<in> set selected_items. file_path item = path) \<and> files h path = Some True
      then None else files h path) \<and>
   reading_positions (delete_selected_files env h selected_items No) = reading_positions h \<and>
   files (delete_selected_files env h selected_items No) = files h"
proof (cases "selected_items = []")
  case True
  then show ?thesis by (simp add: delete_selected_files_def)
next
  case False
  let ?h1 = "h\<lparr>shown := shown h @ [ConfirmDelete (length selected_items)]\<rparr>"
  obtain h2 n2 f2 where loop: "delete_loop env selected_items (?h1, 0, []) = (h2, n2, f2)"
    by (metis prod_cases3)
  have r: "reading_positions (delete_selected_files env h selected_items Yes) = reading_positions h2"
    and f: "files (delete_selected_files env h selected_items Yes) = files h2"
    using False loop by (simp_all add: delete_selected_files_def Let_def)
  have "reading_positions (delete_selected_files env h selected_items Yes) key =
     (if \<exists>item \<in> set selected_items.
           files h (file_path item) = Some True \<and> abspath env (file_path item) = key
      then None else reading_positions h key)"
    using delete_loop_effect(1) [OF loop, of key] by (auto simp: r)
  moreover have "files (delete_selected_files env h selected_items Yes) path =
     (if (\<exists>item \<in> set selected_items. file_path item = path) \<and> files h path = Some True
      then None else files h path)"
    using delete_loop_effect(2) [OF loop, of path] by (auto simp: f)
  moreover have "reading_positions (delete_selected_files env h selected_items No) = reading_positions h"
    and "files (delete_selected_files env h selected_items No) = files h"
    by (simp_all add: delete_selected_files_def Let_def)
  ultimately show ?thesis by blast
qed

text \<open>
  Claim C7 at a concrete input: \<^verbatim>\<open>a.pdf\<close> cannot be removed, \<^verbatim>\<open>b.pdf\<close> is removed and
  its position forgotten, the position of \<^verbatim>\<open>c.pdf\<close> stays.
\<close>

theorem deletion_forgets_only_deleted_files_witness:
  "reading_positions (delete_selected_files posix shelf [item_a, item_b] Yes) ''/app/b.pdf'' = None \<and>
   reading_positions (delete_selected_files posix shelf [item_a, item_b] Yes) ''/app/c.pdf'' = Some 7 \<and>
   files (delete_selected_files posix shelf [item_a, item_b] Yes) ''/app/b.pdf'' = None \<and>
   files (delete_selected_files posix shelf [item_a, item_b] Yes) ''/app/a.pdf'' = Some False"
  using deletion_forgets_only_deleted_files
      [of posix shelf "[item_a, item_b]" "''/app/b.pdf''" "''/app/b.pdf''"]
    deletion_forgets_only_deleted_files
      [of posix shelf "[item_a, item_b]" "''/app/c.pdf''" "''/app/a.pdf''"]
  by (simp add: posix_def shelf_def item_a_def item_b_def)

text \<open>
  Claim C8. A confirmed deletion of a selection calls \<^verbatim>\<open>os.remove\<close> on every selected
  file, in order, whatever failed before; every file that could not be removed has an
  entry in the list of failures and every file that could is gone; each selected file
  is counted as deleted or as failed; and after the confirmation exactly one message
  is shown, with the count and all failures (or the count alone when none failed).
\<close>

theorem deletion_failures_are_collected:
  assumes "selected_items \<noteq> []"
  shows "removals (delete_selected_files env h selected_items Yes) =
           removals h @ map file_path selected_items \<and>
         (\<exists>deleted_count failed_files.
            shown (delete_selected_files env h selected_items Yes) =
              shown h @ [ConfirmDelete (length selected_items),
                         if failed_files \<noteq> [] then DeleteResult deleted_count failed_files
                         else DeleteSuccess deleted_count] \<and>
            deleted_count + length failed_files = length selected_items \<and>
            (\<forall>item \<in> set selected_items.
               files h (file_path item) \<noteq> Some True \<longrightarrow>
                 (\<exists>e. (file_name item, e) \<in> set failed_files)) \<and>
            (\<forall>item \<in> set selected_items.
               files h (file_path item) = Some True \<longrightarrow>
                 files (delete_selected_files env h selected_items Yes) (file_path item) = None))"
proof -
  let ?h1 = "h\<lparr>shown := shown h @ [ConfirmDelete (length selected_items)]\<rparr>"
  obtain h2 n2 f2 where loop: "delete_loop env selected_items (?h1, 0, []) = (h2, n2, f2)"
    by (metis prod_cases3)
  note eff = delete_loop_effect [OF loop]
  have res: "delete_selected_files env h selected_items Yes =
      h2\<lparr>shown := shown h2 @ [if f2 \<noteq> [] then DeleteResult n2 f2 else DeleteSuccess n2]\<rparr>"
    using assms loop by (simp add: delete_selected_files_def Let_def)
  have "shown (delete_selected_files env h selected_items Yes) =
      shown h @ [ConfirmDelete (length selected_items),
                 if f2 \<noteq> [] then DeleteResult n2 f2 else DeleteSuccess n2]"
    by (simp add: res eff(4))
  moreover have "n2 + length f2 = length selected_items"
    using eff(5) by simp
  moreover have "\<forall>item \<in> set selected_items.
      files h (file_path item) \<noteq> Some True \<longrightarrow> (\<exists>e. (file_name item, e) \<in> set f2)"
    using eff(7) by simp
  moreover have "\<forall>item \<in> set selected_items.
      files h (file_path item) = Some True \<longrightarrow>
        files (delete_selected_files env h selected_items Yes) (file_path item) = None"
    using eff(2) by (auto simp: res)
  moreover have "removals (delete_selected_files env h selected_items Yes) =
      removals h @ map file_path selected_items"
    using eff(3) by (simp add: res)
  ultimately show ?thesis by blast
qed

text \<open>
  Claim C8 at a concrete input: removing \<^verbatim>\<open>a.pdf\<close> fails, \<^verbatim>\<open>b.pdf\<close> is still tried
  and removed, and one message reports one deletion and the failure.
\<close>

theorem deletion_failures_are_collected_witness:
  "removals (delete_selected_files posix shelf [item_a, item_b] Yes) =
     [''/app/a.pdf'', ''/app/b.pdf''] \<and>
   shown (delete_selected_files posix shelf [item_a, item_b] Yes) =
     [ConfirmDelete 2, DeleteResult 1 [(''a.pdf'', PermissionError)]] \<and>
   files (delete_selected_files posix shelf [item_a, item_b] Yes) ''/app/b.pdf'' = None"
proof -
  have ne: "[item_a, item_b] \<noteq> []" by simp
  have v: "shown (delete_selected_files posix shelf [item_a, item_b] Yes) =
     [ConfirmDelete 2, DeleteResult 1 [(''a.pdf'', PermissionError)]]"
    "files (delete_selected_files posix shelf [item_a, item_b] Yes) ''/app/b.pdf'' = None"
    by (simp_all add: delete_selected_files_def delete_item_def os_remove_def posix_def shelf_def
        item_a_def item_b_def Let_def)
  have "removals (delete_selected_files posix shelf [item_a, item_b] Yes) =
      removals shelf @ map file_path [item_a, item_b]"
    using deletion_failures_are_collected [OF ne, of posix shelf] by (rule conjunct1)
  then show ?thesis
    using v by (simp add: shelf_def item_a_def item_b_def)
qed

subsection \<open>Scanning the directory\<close>

lemma those_keyed:
  "those (map (\<lambda>p. map_option (\<lambda>t. (t, p)) (mtime p)) paths) = Some keyed \<Longrightarrow>
     map snd keyed = paths \<and> (\<forall>x \<in> set keyed. mtime (snd x) = Some (fst x))"
proof (induction paths arbitrary: keyed)
  case Nil
  then show ?case by simp
next
  case (Cons p paths)
  then show ?case
    by (fastforce split: option.splits)
qed

lemma those_keyed_None:
  "those (map (\<lambda>p. map_option (\<lambda>t. (t, p)) (mtime p)) paths) = None \<longleftrightarrow>
     (\<exists>p \<in> set paths. mtime p = None)"
  by (induction paths) (auto split: option.splits)

lemma sort_by_mtime_reverse_Some:
  assumes "sort_by_mtime_reverse mtime paths = Some sorted_files"
  shows "mset sorted_files = mset paths"
    and "\<exists>ts. map mtime sorted_files = map Some ts \<and> sorted (rev ts)"
proof -
  from assms obtain keyed
    where k: "those (map (\<lambda>p. map_option (\<lambda>t. (t, p)) (mtime p)) paths) = Some keyed"
      and r: "sorted_files = map snd (rev (sort_key fst (rev keyed)))"
    by (auto simp: sort_by_mtime_reverse_def split: option.splits)
  note kk = those_keyed [OF k]
  have "mset sorted_files = mset (map snd keyed)"
    by (simp add: r)
  then show "mset sorted_files = mset paths"
    using kk by simp
  let ?ts = "map fst (rev (sort_key fst (rev keyed)))"
  have "\<forall>x \<in> set (rev (sort_key fst (rev keyed))). mtime (snd x) = Some (fst x)"
    using kk by simp
  then have "map mtime sorted_files = map Some ?ts"
    unfolding r by (simp add: comp_def)
  moreover have "sorted (rev ?ts)"
    by (simp add: rev_map [symmetric])
  ultimately show "\<exists>ts. map mtime sorted_files = map Some ts \<and> sorted (rev ts)"
    by blast
qed

lemma map_Some_not_None: "map f xs = map Some ts \<Longrightarrow> \<forall>p \<in> set xs. f p \<noteq> None"
proof (induction xs arbitrary: ts)
  case Nil
  then show ?case by simp
next
  case (Cons x xs)
  then show ?case by (cases ts) auto
qed

lemma glob_pdf_plain:
  "\<not> has_magic (current_dir d) \<Longrightarrow>
     glob_pdf env d =
       map (join_path env (current_dir d))
         (filter (\<lambda>name. \<not> is_hidden name \<and> ends_with ''.pdf'' (normcase env name))
            (listdir d (current_dir d)))"
  by (simp add: glob_pdf_def)

lemma plain_app: "\<not> has_magic ''/app''"
  by (simp add: has_magic_def)

lemma glob_tidy: "glob_pdf posix tidy_dir = [''/app/a.pdf'', ''/app/b.pdf'']"
  by (simp add: glob_pdf_def plain_app posix_def tidy_dir_def is_hidden_def ends_with_def)

lemma glob_app: "glob_pdf posix app_dir = [''/app/a.pdf'', ''/app/b.pdf'', ''/app/c.pdf'']"
  by (simp add: glob_pdf_def plain_app posix_def app_dir_def is_hidden_def ends_with_def)

lemma mtime_tidy:
  "getmtime tidy_dir ''/app/a.pdf'' = Some 1" "getmtime tidy_dir ''/app/b.pdf'' = Some 5"
  by (simp_all add: tidy_dir_def)

lemma mtime_app:
  "getmtime app_dir ''/app/a.pdf'' = Some 1" "getmtime app_dir ''/app/b.pdf'' = Some 5"
  "getmtime app_dir ''/app/c.pdf'' = None"
  by (simp_all add: app_dir_def)

lemma scan_tidy: "scan_pdf_files posix tidy_dir = [''/app/b.pdf'', ''/app/a.pdf'']"
  by (simp add: scan_pdf_files_def glob_tidy sort_by_mtime_reverse_def mtime_tidy)

text \<open>
  A program directory named \<^verbatim>\<open>s[1]\<close>: \<^verbatim>\<open>glob\<close> reads the name as a pattern, which
  matches the directory \<^verbatim>\<open>s1\<close>, and the scan lists the PDF of that directory and not
  the one of its own.
\<close>

lemma glob_bracket: "glob_pdf posix bracket_dir = [''/app/s1/other.pdf'']"
  by (simp add: glob_pdf_def has_magic_def posix_def bracket_dir_def is_hidden_def ends_with_def)

lemma scan_bracket: "scan_pdf_files posix bracket_dir = [''/app/s1/other.pdf'']"
  by (simp add: scan_pdf_files_def glob_bracket sort_by_mtime_reverse_def)
    (simp add: bracket_dir_def)

text \<open>
  Claim C9, as the code has it. When the path of the program's directory holds none of
  the characters \<^verbatim>\<open>*\<close>, \<^verbatim>\<open>?\<close>, \<^verbatim>\<open>[\<close>, the scan returns, each once, the paths of the
  names in that directory that \<^verbatim>\<open>glob\<close> matches against \<^verbatim>\<open>*.pdf\<close>: those that end
  in \<^verbatim>\<open>.pdf\<close> after \<^verbatim>\<open>normcase\<close> and do not start with a dot. When the modification
  time of each of them can be read they are in the order of their modification times,
  newest first. When one cannot be read, the list is returned as \<^verbatim>\<open>glob\<close> gave it.
\<close>

theorem scan_pdf_files_result:
  assumes "\<not> has_magic (current_dir d)"
  shows "mset (scan_pdf_files env d) =
     mset (map (join_path env (current_dir d))
            (filter (\<lambda>name. \<not> is_hidden name \<and> ends_with ''.pdf'' (normcase env name))
               (listdir d (current_dir d)))) \<and>
   ((\<forall>p \<in> set (scan_pdf_files env d). getmtime d p \<noteq> None) \<longrightarrow>
      (\<exists>ts. map (getmtime d) (scan_pdf_files env d) = map Some ts \<and> sorted (rev ts))) \<and>
   ((\<exists>p \<in> set (scan_pdf_files env d). getmtime d p = None) \<longrightarrow>
      scan_pdf_files env d =
        map (join_path env (current_dir d))
          (filter (\<lambda>name. \<not> is_hidden name \<and> ends_with ''.pdf'' (normcase env name))
             (listdir d (current_dir d))))"
proof (cases "sort_by_mtime_reverse (getmtime d) (glob_pdf env d)")
  case None
  have e: "scan_pdf_files env d = glob_pdf env d"
    using None by (simp add: scan_pdf_files_def)
  have "\<exists>p \<in> set (glob_pdf env d). getmtime d p = None"
    using None by (simp add: sort_by_mtime_reverse_def those_keyed_None split: option.splits)
  then show ?thesis
    unfolding e unfolding glob_pdf_plain [OF assms] by blast
next
  case (Some sorted_files)
  then have s: "scan_pdf_files env d = sorted_files"
    by (simp add: scan_pdf_files_def)
  note srt = sort_by_mtime_reverse_Some [OF Some]
  have all: "\<forall>p \<in> set sorted_files. getmtime d p \<noteq> None"
    using srt(2) map_Some_not_None by blast
  have "mset sorted_files = mset (map (join_path env (current_dir d))
            (filter (\<lambda>name. \<not> is_hidden name \<and> ends_with ''.pdf'' (normcase env name))
               (listdir d (current_dir d))))"
    using srt(1) unfolding glob_pdf_plain [OF assms] .
  moreover have "\<not> (\<exists>p \<in> set sorted_files. getmtime d p = None)"
    using all by blast
  ultimately show ?thesis
    unfolding s using srt(2) by blast
qed

text \<open>
  Claim C9 at a concrete input: \<^verbatim>\<open>b.pdf\<close> is newer than \<^verbatim>\<open>a.pdf\<close> and comes first;
  \<^verbatim>\<open>notes.txt\<close> is not listed.
\<close>

theorem scan_pdf_files_result_witness:
  "\<not> has_magic (current_dir tidy_dir) \<and>
   scan_pdf_files posix tidy_dir = [''/app/b.pdf'', ''/app/a.pdf''] \<and>
   mset (scan_pdf_files posix tidy_dir) = mset [''/app/a.pdf'', ''/app/b.pdf''] \<and>
   (\<exists>ts. map (getmtime tidy_dir) (scan_pdf_files posix tidy_dir) = map Some ts \<and> sorted (rev ts))"
proof -
  have m: "\<not> has_magic (current_dir tidy_dir)"
    by (simp add: tidy_dir_def plain_app)
  note t = scan_pdf_files_result [OF m, of posix]
  have l: "map (join_path posix (current_dir tidy_dir))
      (filter (\<lambda>name. \<not> is_hidden name \<and> ends_with ''.pdf'' (normcase posix name))
         (listdir tidy_dir (current_dir tidy_dir))) = [''/app/a.pdf'', ''/app/b.pdf'']"
    using glob_tidy unfolding glob_pdf_plain [OF m] .
  have ms: "mset (scan_pdf_files posix tidy_dir) = mset [''/app/a.pdf'', ''/app/b.pdf'']"
    using t unfolding l by blast
  have "\<forall>p \<in> set (scan_pdf_files posix tidy_dir). getmtime tidy_dir p \<noteq> None"
    by (simp add: scan_tidy mtime_tidy)
  with t have "\<exists>ts. map (getmtime tidy_dir) (scan_pdf_files posix tidy_dir) = map Some ts \<and>
      sorted (rev ts)"
    by blast
  then show ?thesis
    using m ms scan_tidy by blast
qed

text \<open>
  Claim C9 as stated fails on a directory where the modification time of \<^verbatim>\<open>c.pdf\<close>
  cannot be read and \<^verbatim>\<open>.cover.pdf\<close> is hidden: the sort raises, the handler takes
  over, and the list comes back in the order of the directory, \<^verbatim>\<open>a.pdf\<close>
  (time 1) before the newer \<^verbatim>\<open>b.pdf\<close> (time 5); \<^verbatim>\<open>.cover.pdf\<close> has the extension
  and is not in the list.
\<close>

theorem scan_unsorted_and_skips_hidden:
  "scan_pdf_files posix app_dir = [''/app/a.pdf'', ''/app/b.pdf'', ''/app/c.pdf''] \<and>
   getmtime app_dir ''/app/a.pdf'' = Some 1 \<and> getmtime app_dir ''/app/b.pdf'' = Some 5 \<and>
   ''.cover.pdf'' \<in> set (listdir app_dir (current_dir app_dir)) \<and>
   ends_with ''.pdf'' ''.cover.pdf''"
proof -
  have "scan_pdf_files posix app_dir = [''/app/a.pdf'', ''/app/b.pdf'', ''/app/c.pdf'']"
    by (simp add: scan_pdf_files_def glob_app sort_by_mtime_reverse_def mtime_app)
  moreover have "''.cover.pdf'' \<in> set (listdir app_dir (current_dir app_dir))"
    by (simp add: app_dir_def)
  moreover have "ends_with ''.pdf'' ''.cover.pdf''"
    by (simp add: ends_with_def)
  ultimately show ?thesis
    using mtime_app(1,2) by blast
qed

subsection \<open>Opening a file\<close>

text \<open>
  Claim C10. With several items selected, \<^verbatim>\<open>open_selected_file\<close> hands the path of
  the first one, and nothing else, to the host's \<^verbatim>\<open>load_pdf_file\<close> and accepts the
  dialog; the other selected items have no effect. With nothing selected it shows the
  warning, opens nothing and does not accept.
\<close>

theorem open_selected_file_first_only:
  "open_selected_file h (item # others) = open_selected_file h [item] \<and>
   opened (open_selected_file h (item # others)) = opened h @ [file_path item] \<and>
   shown (open_selected_file h (item # others)) = shown h \<and>
   accepted (open_selected_file h (item # others)) \<and>
   opened (open_selected_file h []) = opened h \<and>
   shown (open_selected_file h []) = shown h @ [WarnSelectToOpen] \<and>
   accepted (open_selected_file h []) = accepted h"
  by (simp add: open_selected_file_def)


end
